theory Spec2Isabelle
  imports Main "HOL-Library.AList"
begin

section \<open>Dataset utilities of gluonnlp.data.utils\<close>

text \<open>
  The functions of \<^verbatim>\<open>gluonnlp/data/utils.py\<close> that slice, concatenate and count
  tokens, embedded as HOL functions. Python's unbounded integers are \<^typ>\<open>int\<close>, a Python
  list is a HOL list, an exception is the left summand of a result type.
\<close>

subsection \<open>Python primitives used by the source\<close>

datatype error = ValueError | KeyError

text \<open>
  \<^verbatim>\<open>xs[start:stop]\<close>: a negative bound counts from the end, and both bounds are
  clipped to the list; an empty range gives the empty list, never an error.
\<close>

definition py_clip :: "int \<Rightarrow> int \<Rightarrow> int" where
  "py_clip n i = (if i < 0 then max (i + n) 0 else min i n)"

definition py_slice :: "'a list \<Rightarrow> int \<Rightarrow> int \<Rightarrow> 'a list" where
  "py_slice xs start stop =
     (let n = int (length xs); a = py_clip n start; b = py_clip n stop
      in take (nat (b - a)) (drop (nat a) xs))"

text \<open>\<^verbatim>\<open>range(n)\<close>: the integers from 0 up to \<open>n - 1\<close>, none when \<open>n \<le> 0\<close>.\<close>

definition py_range :: "int \<Rightarrow> int list" where
  "py_range n = [0..n - 1]"

text \<open>\<^verbatim>\<open>[v] * k\<close>: \<open>k\<close> copies of \<open>v\<close>, none when \<open>k \<le> 0\<close>.\<close>

definition py_repeat :: "'a \<Rightarrow> int \<Rightarrow> 'a list" where
  "py_repeat v k = replicate (nat k) v"

subsection \<open>slice_sequence and its padding length\<close>

text \<open>
  \<^verbatim>\<open>
  def _slice_pad_length(num_items, length, overlap=0):
      if length <= overlap:
          raise ValueError('length needs to be larger than overlap')
      step = length - overlap
      span = num_items - length
      residual = span % step
      if residual:
          return step - residual
      else:
          return 0
  \<close>
  Python's \<^verbatim>\<open>%\<close> with a positive divisor is the floor modulus, as \<open>mod\<close> on \<^typ>\<open>int\<close>.
\<close>

definition slice_pad_length :: "int \<Rightarrow> int \<Rightarrow> int \<Rightarrow> error + int" where
  "slice_pad_length num_items len overlap =
     (if len \<le> overlap then Inl ValueError
      else
        let step = len - overlap;
            span = num_items - len;
            residual = span mod step
        in if residual \<noteq> 0 then Inr (step - residual) else Inr 0)"

text \<open>
  \<^verbatim>\<open>
  def slice_sequence(sequence, length, pad_last=False, pad_val=C.PAD_TOKEN, overlap=0):
      if length <= overlap:
          raise ValueError('length needs to be larger than overlap')
      if pad_last:
          pad_len = _slice_pad_length(len(sequence), length, overlap)
          sequence = sequence + [pad_val] * pad_len
      num_samples = (len(sequence) - length) // (length - overlap) + 1
      return [sequence[i * (length - overlap): ((i + 1) * length - i * overlap)]
              for i in range(num_samples)]
  \<close>
  \<open>pad_sequence\<close> is the body of the \<^verbatim>\<open>if pad_last\<close> statement, \<open>slice_windows\<close> the
  last two statements.
\<close>

definition pad_sequence :: "'a list \<Rightarrow> int \<Rightarrow> bool \<Rightarrow> 'a \<Rightarrow> int \<Rightarrow> error + 'a list" where
  "pad_sequence sequence len pad_last pad_val overlap =
     (if pad_last then
        (case slice_pad_length (int (length sequence)) len overlap of
           Inl e \<Rightarrow> Inl e
         | Inr pad_len \<Rightarrow> Inr (sequence @ py_repeat pad_val pad_len))
      else Inr sequence)"

definition slice_windows :: "'a list \<Rightarrow> int \<Rightarrow> int \<Rightarrow> 'a list list" where
  "slice_windows sequence len overlap =
     (let num_samples = (int (length sequence) - len) div (len - overlap) + 1
      in map (\<lambda>i. py_slice sequence (i * (len - overlap)) ((i + 1) * len - i * overlap))
           (py_range num_samples))"

definition slice_sequence :: "'a list \<Rightarrow> int \<Rightarrow> bool \<Rightarrow> 'a \<Rightarrow> int \<Rightarrow> error + 'a list list" where
  "slice_sequence sequence len pad_last pad_val overlap =
     (if len \<le> overlap then Inl ValueError
      else
        (case pad_sequence sequence len pad_last pad_val overlap of
           Inl e \<Rightarrow> Inl e
         | Inr padded \<Rightarrow> Inr (slice_windows padded len overlap)))"

text \<open>
  The windows as the specification describes them, for natural numbers \<open>length > overlap\<close>:
  with \<open>step = length - overlap\<close> there are \<open>floor((n - length) / step) + 1\<close> windows, none
  when \<open>n < length\<close>, and window \<open>i\<close> holds the elements at the indices from \<open>i * step\<close> up to
  but excluding \<open>i * step + length\<close>.
\<close>

definition spec_num_windows :: "nat \<Rightarrow> nat \<Rightarrow> nat \<Rightarrow> nat" where
  "spec_num_windows n len step = (if n < len then 0 else (n - len) div step + 1)"

definition spec_window :: "'a list \<Rightarrow> nat \<Rightarrow> nat \<Rightarrow> 'a list" where
  "spec_window xs lo hi = map (nth xs) [lo..<hi]"

definition spec_slice :: "'a list \<Rightarrow> nat \<Rightarrow> nat \<Rightarrow> 'a list list" where
  "spec_slice xs len overlap =
     (let step = len - overlap
      in map (\<lambda>i. spec_window xs (i * step) (i * step + len))
           [0..<spec_num_windows (length xs) len step])"

subsection \<open>concat_sequence\<close>

text \<open>
  \<^verbatim>\<open>
  def concat_sequence(sequences):
      return [token for seq in sequences for token in seq if token]
  \<close>
  The filter \<^verbatim>\<open>if token\<close> is Python's truth test. Tokens are Python objects; the model has
  the kinds of token a dataset holds, with the truth value Python gives each.
\<close>

datatype token = PyNone | PyBool bool | PyInt int | PyStr string | PyTuple "token list"

fun truthy :: "token \<Rightarrow> bool" where
  "truthy PyNone = False"
| "truthy (PyBool b) = b"
| "truthy (PyInt i) = (i \<noteq> 0)"
| "truthy (PyStr s) = (s \<noteq> [])"
| "truthy (PyTuple ts) = (ts \<noteq> [])"

definition concat_sequence :: "token list list \<Rightarrow> token list" where
  "concat_sequence sequences = [token. seq \<leftarrow> sequences, token \<leftarrow> seq, truthy token]"

subsection \<open>Dictionaries\<close>

text \<open>
  A Python dict is an association list in insertion order whose keys are distinct.
  \<^verbatim>\<open>d.get(k, v)\<close> never raises; \<^verbatim>\<open>d[k] = v\<close> replaces the value of a key that is present
  and appends the key otherwise, which is \<^const>\<open>AList.update\<close>.
\<close>

type_synonym ('k, 'v) dict = "('k \<times> 'v) list"

definition is_dict :: "('k, 'v) dict \<Rightarrow> bool" where
  "is_dict d = distinct (map fst d)"

definition dict_get :: "('k, 'v) dict \<Rightarrow> 'k \<Rightarrow> 'v \<Rightarrow> 'v" where
  "dict_get d k v = (case map_of d k of None \<Rightarrow> v | Some w \<Rightarrow> w)"

definition dict_setitem :: "('k, 'v) dict \<Rightarrow> 'k \<Rightarrow> 'v \<Rightarrow> ('k, 'v) dict" where
  "dict_setitem d k v = AList.update k v d"

subsection \<open>Counter.discard\<close>

text \<open>
  \<^verbatim>\<open>
  def discard(self, min_freq, unknown_token):
      freq = 0
      ret = Counter({})
      for token, count in self.items():
          if count < min_freq:
              freq += count
          else:
              ret[token] = count
      ret[unknown_token] = ret.get(unknown_token, 0) + freq
      return ret
  \<close>
  \<open>discard_loop\<close> is the \<^verbatim>\<open>for\<close> loop, with the variables \<open>freq\<close> and \<open>ret\<close> as its state.
\<close>

type_synonym 'k counter = "('k, int) dict"

fun discard_loop :: "('k \<times> int) list \<Rightarrow> int \<Rightarrow> int \<Rightarrow> 'k counter \<Rightarrow> int \<times> 'k counter" where
  "discard_loop [] min_freq freq ret = (freq, ret)"
| "discard_loop ((token, count) # items) min_freq freq ret =
     (if count < min_freq then discard_loop items min_freq (freq + count) ret
      else discard_loop items min_freq freq (dict_setitem ret token count))"

definition discard :: "'k counter \<Rightarrow> int \<Rightarrow> 'k \<Rightarrow> 'k counter" where
  "discard self min_freq unknown_token =
     (case discard_loop self min_freq 0 [] of
        (freq, ret) \<Rightarrow> dict_setitem ret unknown_token (dict_get ret unknown_token 0 + freq))"

text \<open>The sum of all counts of a counter, \<^verbatim>\<open>sum(c.values())\<close>.\<close>

definition total_count :: "'k counter \<Rightarrow> int" where
  "total_count c = sum_list (map snd c)"

subsection \<open>DefaultLookupDict\<close>

text \<open>
  \<^verbatim>\<open>
  class DefaultLookupDict(dict):
      def __init__(self, default, d=None):
          if d:
              super(DefaultLookupDict, self).__init__(d)
          else:
              super(DefaultLookupDict, self).__init__()
          self._default = default

      def __getitem__(self, k):
          return self.get(k, self._default)
  \<close>
  The object is its dict contents together with the field \<^verbatim>\<open>_default\<close>. The argument \<open>d\<close>
  is \<^verbatim>\<open>None\<close> or a dict, and \<^verbatim>\<open>if d\<close> is false for both \<^verbatim>\<open>None\<close> and the empty dict.
\<close>

record ('k, 'v) DefaultLookupDict =
  entries :: "('k, 'v) dict"
  default_value :: 'v

definition DefaultLookupDict_init :: "'v \<Rightarrow> ('k, 'v) dict option \<Rightarrow> ('k, 'v) DefaultLookupDict" where
  "DefaultLookupDict_init dflt d =
     (case d of
        None \<Rightarrow> \<lparr>entries = [], default_value = dflt\<rparr>
      | Some m \<Rightarrow> if m \<noteq> [] then \<lparr>entries = m, default_value = dflt\<rparr>
                 else \<lparr>entries = [], default_value = dflt\<rparr>)"

definition DefaultLookupDict_getitem :: "('k, 'v) DefaultLookupDict \<Rightarrow> 'k \<Rightarrow> error + 'v" where
  "DefaultLookupDict_getitem self k = Inr (dict_get (entries self) k (default_value self))"

section \<open>Properties of slice_sequence\<close>

subsection \<open>Slices that lie inside the list\<close>

lemma py_slice_inside:
  assumes "0 \<le> a" "a \<le> b" "b \<le> int (length xs)"
  shows "py_slice xs a b = take (nat (b - a)) (drop (nat a) xs)"
  using assms by (simp add: py_slice_def py_clip_def Let_def)

lemma window_stop: "(i + 1) * len - i * overlap = i * (len - overlap) + (len::int)"
  by (simp add: algebra_simps)

lemma window_fits:
  fixes n len step i :: int
  assumes "0 < step" "0 \<le> i" "i \<le> (n - len) div step"
  shows "i * step + len \<le> n"
proof -
  have "i * step \<le> ((n - len) div step) * step"
    using assms by (simp add: mult_right_mono)
  also have "\<dots> \<le> n - len"
    using assms(1)
    by (metis mult.commute pos_mod_sign add_le_cancel_left add.right_neutral mult_div_mod_eq)
  finally show ?thesis by simp
qed

lemma set_py_range: "set (py_range n) = {i. 0 \<le> i \<and> i < n}"
  by (auto simp: py_range_def)

lemma slice_windows_window:
  assumes "overlap < len" "0 \<le> len" "w \<in> set (slice_windows xs len overlap)"
  shows "\<exists>i. 0 \<le> i \<and> i * (len - overlap) + len \<le> int (length xs) \<and>
             w = take (nat len) (drop (nat (i * (len - overlap))) xs)"
proof -
  let ?step = "len - overlap"
  from assms(3) obtain i where i: "0 \<le> i" "i \<le> (int (length xs) - len) div ?step"
    and w: "w = py_slice xs (i * ?step) (i * ?step + len)"
    by (auto simp: slice_windows_def Let_def set_py_range window_stop)
  have fits: "i * ?step + len \<le> int (length xs)"
    using window_fits[of ?step i "int (length xs)" len] assms(1) i by simp
  have "0 \<le> i * ?step" using i(1) assms(1) by simp
  then have "w = take (nat len) (drop (nat (i * ?step)) xs)"
    using w fits assms(2) by (simp add: py_slice_inside)
  then show ?thesis using i(1) fits by blast
qed

lemma length_slice_windows:
  assumes "overlap < len" "0 \<le> len" "w \<in> set (slice_windows xs len overlap)"
  shows "int (length w) = len"
proof -
  from slice_windows_window[OF assms] obtain i where
    i: "0 \<le> i" "i * (len - overlap) + len \<le> int (length xs)"
    and w: "w = take (nat len) (drop (nat (i * (len - overlap))) xs)" by blast
  have "0 \<le> i * (len - overlap)" using i(1) assms(1) by simp
  then show ?thesis using w i(2) assms(2) by simp
qed

lemma pad_sequence_returns:
  assumes "overlap < len"
  shows "\<exists>padded. pad_sequence xs len pad_last pad_val overlap = Inr padded"
  using assms by (simp add: pad_sequence_def slice_pad_length_def Let_def)

subsection \<open>Window length\<close>

text \<open>
  Claim C1. For every sequence, every \<open>length > overlap \<ge> 0\<close> and any \<open>pad_last\<close> and
  \<open>pad_val\<close>, slice_sequence returns a list of windows, and each window in it has exactly
  \<open>length\<close> elements.
\<close>

theorem slice_sequence_window_length:
  assumes "overlap < len" "0 \<le> overlap"
  shows "\<exists>ws. slice_sequence xs len pad_last pad_val overlap = Inr ws \<and>
              (\<forall>w \<in> set ws. int (length w) = len)"
proof -
  obtain padded where p: "pad_sequence xs len pad_last pad_val overlap = Inr padded"
    using pad_sequence_returns[OF assms(1), of xs pad_last pad_val] by blast
  have "slice_sequence xs len pad_last pad_val overlap = Inr (slice_windows padded len overlap)"
    using assms(1) p by (simp add: slice_sequence_def)
  moreover have "\<forall>w \<in> set (slice_windows padded len overlap). int (length w) = len"
    using assms by (auto intro: length_slice_windows)
  ultimately show ?thesis by blast
qed

theorem slice_sequence_window_length_witness:
  "(0::int) < 3 \<and> (0::int) \<le> 0 \<and>
   (\<exists>ws. slice_sequence [1, 2, 3, 4, 5 :: int] 3 True 0 0 = Inr ws \<and>
         (\<forall>w \<in> set ws. int (length w) = 3))"
  using slice_sequence_window_length[of 0 3 "[1, 2, 3, 4, 5 :: int]" True 0] by simp

subsection \<open>The argument check\<close>

text \<open>
  Claim C4. For every sequence, \<open>pad_last\<close>, \<open>pad_val\<close> and \<open>overlap\<close>, slice_sequence
  raises its error (Python's ValueError) if and only if \<open>length \<le> overlap\<close>; the error does
  not depend on the sequence or on the padding arguments, so it is raised for the empty
  sequence too, and no other error is ever raised.
\<close>

theorem slice_sequence_raises_iff:
  "(slice_sequence xs len pad_last pad_val overlap = Inl ValueError \<longleftrightarrow> len \<le> overlap) \<and>
   (isl (slice_sequence xs len pad_last pad_val overlap) \<longleftrightarrow> len \<le> overlap)"
proof (cases "len \<le> overlap")
  case True
  then show ?thesis by (simp add: slice_sequence_def)
next
  case False
  then obtain padded where "pad_sequence xs len pad_last pad_val overlap = Inr padded"
    using pad_sequence_returns[of overlap len xs pad_last pad_val] by fastforce
  with False show ?thesis by (simp add: slice_sequence_def)
qed

theorem slice_sequence_raises_iff_witness:
  "slice_sequence [1, 2, 3 :: int] 2 False 0 2 = Inl ValueError \<and>
   slice_sequence ([] :: int list) 2 True 0 2 = Inl ValueError \<and>
   \<not> isl (slice_sequence [1, 2, 3 :: int] 2 False 0 1)"
  using slice_sequence_raises_iff[of "[1, 2, 3 :: int]" 2 False 0 2]
    slice_sequence_raises_iff[of "[] :: int list" 2 True 0 2]
    slice_sequence_raises_iff[of "[1, 2, 3 :: int]" 2 False 0 1]
  by simp

subsection \<open>Examples and the empty sequence\<close>

text \<open>
  Claim C6. \<open>slice_sequence([1,2,3,4,5,6], length=4, overlap=2)\<close> returns
  \<open>[[1,2,3,4],[3,4,5,6]]\<close>: the two windows share the elements 3 and 4.
\<close>

theorem slice_sequence_overlap_example:
  "slice_sequence [1, 2, 3, 4, 5, 6 :: int] 4 False pad_val 2 = Inr [[1, 2, 3, 4], [3, 4, 5, 6]]"
  by (simp add: slice_sequence_def pad_sequence_def slice_windows_def py_range_def
      py_slice_def py_clip_def upto.simps)

text \<open>
  Claim C7. For every \<open>length > overlap \<ge> 0\<close>, slice_sequence applied to the empty
  sequence with \<open>pad_last=False\<close> returns the empty list of windows.
\<close>

theorem slice_sequence_empty:
  assumes "overlap < len" "0 \<le> overlap"
  shows "slice_sequence [] len False pad_val overlap = Inr []"
proof -
  have "(- len) div (len - overlap) < 0"
    using assms by (simp add: div_neg_pos_less0)
  then have "py_range ((int (length ([] :: 'a list)) - len) div (len - overlap) + 1) = []"
    by (simp add: py_range_def)
  then show ?thesis
    using assms(1) by (simp add: slice_sequence_def pad_sequence_def slice_windows_def Let_def)
qed

theorem slice_sequence_empty_witness:
  "(1::int) < 4 \<and> (0::int) \<le> 1 \<and> slice_sequence ([] :: int list) 4 False 0 1 = Inr []"
  using slice_sequence_empty[of 1 4 "0::int"] by simp

subsection \<open>The windows without padding\<close>

lemma py_range_upt: "py_range n = map int [0..<nat n]"
proof (cases "0 \<le> n")
  case True
  then obtain k where "n = int k" using nonneg_int_cases by blast
  moreover have "[0..int k - 1] = map int [0..<k]"
    by (induction k) (simp_all add: upto_rec2)
  ultimately show ?thesis by (simp add: py_range_def)
next
  case False
  then show ?thesis by (simp add: py_range_def)
qed

lemma slice_windows_take_drop:
  assumes "overlap < len" "0 \<le> len"
  shows "slice_windows xs len overlap =
           map (\<lambda>i. take (nat len) (drop (i * nat (len - overlap)) xs))
             [0..<nat ((int (length xs) - len) div (len - overlap) + 1)]"
proof -
  let ?step = "len - overlap"
  let ?k = "nat ((int (length xs) - len) div ?step + 1)"
  have "py_slice xs (int i * ?step) ((int i + 1) * len - int i * overlap) =
          take (nat len) (drop (i * nat ?step) xs)" if "i < ?k" for i
  proof -
    have "int i \<le> (int (length xs) - len) div ?step" using that by linarith
    then have fits: "int i * ?step + len \<le> int (length xs)"
      using window_fits[of ?step "int i" "int (length xs)" len] assms(1) by simp
    have pos: "0 \<le> int i * ?step" using assms(1) by simp
    have "nat (int i * ?step) = i * nat ?step" by (simp add: nat_mult_distrib)
    then show ?thesis
      using py_slice_inside[of "int i * ?step" "int i * ?step + len" xs] fits pos assms(2)
      by (simp add: window_stop)
  qed
  then show ?thesis
    by (simp add: slice_windows_def Let_def py_range_upt)
qed

lemma take_drop_nth: "lo + k \<le> length xs \<Longrightarrow> take k (drop lo xs) = map (nth xs) [lo..<lo + k]"
  by (auto intro!: nth_equalityI)

lemma num_samples_spec:
  assumes "overlap < len"
  shows "nat ((int n - int len) div (int len - int overlap) + 1) =
           spec_num_windows n len (len - overlap)"
proof (cases "n < len")
  case True
  then have "(int n - int len) div (int len - int overlap) < 0"
    using assms by (simp add: div_neg_pos_less0)
  then show ?thesis using True by (simp add: spec_num_windows_def)
next
  case False
  have a: "int n - int len = int (n - len)"
    using False by (simp add: of_nat_diff)
  have b: "int len - int overlap = int (len - overlap)"
    using assms by (simp add: of_nat_diff)
  have "(int n - int len) div (int len - int overlap) = int ((n - len) div (len - overlap))"
    unfolding a b by (rule zdiv_int[symmetric])
  then have "(int n - int len) div (int len - int overlap) + 1 =
               int ((n - len) div (len - overlap) + 1)"
    by simp
  then have "nat ((int n - int len) div (int len - int overlap) + 1) =
               (n - len) div (len - overlap) + 1"
    by (simp only: nat_int)
  then show ?thesis using False by (simp only: spec_num_windows_def if_False)
qed

lemma spec_window_fits:
  assumes "overlap < len" "i < spec_num_windows n len (len - overlap)"
  shows "i * (len - overlap) + len \<le> n"
proof -
  from assms(2) have le: "len \<le> n" and i: "i \<le> (n - len) div (len - overlap)"
    by (auto simp: spec_num_windows_def split: if_splits)
  have "i * (len - overlap) \<le> ((n - len) div (len - overlap)) * (len - overlap)"
    using i by (rule mult_le_mono1)
  also have "\<dots> \<le> n - len" by simp
  finally show ?thesis using le by simp
qed

text \<open>
  Claim C2. For natural numbers \<open>length > overlap\<close> and \<open>pad_last=False\<close>, slice_sequence
  returns exactly the windows of the specification: window \<open>i\<close> is
  \<open>sequence[i*step : i*step + length]\<close> for \<open>i\<close> below
  \<open>num_windows = floor((n - length) / step) + 1\<close> (zero when \<open>n < length\<close>). Each of these
  windows lies inside the sequence, so no partial window is emitted.
\<close>

theorem slice_sequence_no_pad:
  assumes "overlap < len"
  shows "slice_sequence xs (int len) False pad_val (int overlap) = Inr (spec_slice xs len overlap) \<and>
         (\<forall>i < spec_num_windows (length xs) len (len - overlap).
             i * (len - overlap) + len \<le> length xs)"
proof -
  let ?step = "len - overlap"
  let ?k = "spec_num_windows (length xs) len ?step"
  have fits: "i * ?step + len \<le> length xs" if "i < ?k" for i
    using spec_window_fits[OF assms that] .
  have step: "nat (int len - int overlap) = ?step" using assms by simp
  have "slice_windows xs (int len) (int overlap) =
          map (\<lambda>i. take len (drop (i * ?step) xs)) [0..<?k]"
    using slice_windows_take_drop[of "int overlap" "int len" xs] assms
    by (simp add: num_samples_spec step)
  also have "\<dots> = map (\<lambda>i. spec_window xs (i * ?step) (i * ?step + len)) [0..<?k]"
    using fits by (simp add: take_drop_nth spec_window_def)
  finally have "slice_windows xs (int len) (int overlap) = spec_slice xs len overlap"
    by (simp add: spec_slice_def Let_def)
  then show ?thesis
    using assms fits by (simp add: slice_sequence_def pad_sequence_def)
qed


theorem slice_sequence_no_pad_witness:
  "(1::nat) < 3 \<and>
   slice_sequence [1, 2, 3, 4, 5, 6, 7, 8 :: int] 3 False 0 (int 1) =
     Inr (spec_slice [1, 2, 3, 4, 5, 6, 7, 8] 3 1) \<and>
   spec_slice [1, 2, 3, 4, 5, 6, 7, 8 :: int] 3 1 = [[1, 2, 3], [3, 4, 5], [5, 6, 7]]"
proof -
  have "spec_slice [1, 2, 3, 4, 5, 6, 7, 8 :: int] 3 1 = [[1, 2, 3], [3, 4, 5], [5, 6, 7]]"
    by code_simp
  then show ?thesis
    using slice_sequence_no_pad[of 1 3 "[1, 2, 3, 4, 5, 6, 7, 8 :: int]" 0] by simp
qed

subsection \<open>Round trip without overlap\<close>

lemma concat_chunks: "concat (map (\<lambda>i. take len (drop (i * len) xs)) [0..<k]) = take (k * len) xs"
proof (induction k)
  case 0
  then show ?case by simp
next
  case (Suc k)
  have "take (Suc k * len) xs = take (k * len) xs @ take len (drop (k * len) xs)"
    using take_add[of "k * len" len xs] by (simp add: add.commute)
  with Suc show ?case by simp
qed

text \<open>
  Claim C5. For every sequence whose length is divisible by \<open>length > 0\<close>, concatenating
  the windows of \<open>slice_sequence(s, length, pad_last=False, overlap=0)\<close> in order gives the
  sequence back.
\<close>

theorem slice_sequence_round_trip:
  assumes "0 < len" "len dvd int (length xs)"
  shows "\<exists>ws. slice_sequence xs len False pad_val 0 = Inr ws \<and> concat ws = xs"
proof -
  from assms obtain k where k: "int (length xs) = len * k" by (auto simp: dvd_def)
  have "0 \<le> len * k" using k by (metis of_nat_0_le_iff)
  then have "0 \<le> k" using assms(1) by (simp add: zero_le_mult_iff)
  have "len * k - len = (k - 1) * len" by (simp add: algebra_simps)
  then have num: "(int (length xs) - len) div len + 1 = k"
    using assms(1) k by simp
  have n: "length xs = nat k * nat len"
    using k assms(1) \<open>0 \<le> k\<close> by (metis mult.commute nat_int nat_mult_distrib)
  have "slice_windows xs len 0 = map (\<lambda>i. take (nat len) (drop (i * nat len) xs)) [0..<nat k]"
    using slice_windows_take_drop[of 0 len xs] assms(1) num by simp
  then have "concat (slice_windows xs len 0) = xs"
    using n by (simp add: concat_chunks)
  then show ?thesis
    using assms(1) by (simp add: slice_sequence_def pad_sequence_def)
qed

theorem slice_sequence_round_trip_witness:
  "(0::int) < 3 \<and> (3::int) dvd int (length [1, 2, 3, 4, 5, 6 :: int]) \<and>
   (\<exists>ws. slice_sequence [1, 2, 3, 4, 5, 6 :: int] 3 False 0 0 = Inr ws \<and>
     concat ws = [1, 2, 3, 4, 5, 6])"
  using slice_sequence_round_trip[of 3 "[1, 2, 3, 4, 5, 6 :: int]" 0] by simp

subsection \<open>Padding a sequence no longer than the overlap\<close>

text \<open>
  The padding length aligns the padded sequence with the stride. When the sequence has
  more elements than \<open>overlap\<close>, the padded sequence holds at least one window and the
  windows cover every element; when it has at most \<open>overlap\<close> elements, the padded
  sequence stays shorter than \<open>length\<close> and no window is returned.
\<close>

lemma pad_length_aligned:
  fixes n len overlap :: int
  assumes "overlap < len" "slice_pad_length n len overlap = Inr p"
  shows "0 \<le> p \<and> p < len - overlap \<and> (n + p - len) mod (len - overlap) = 0"
proof -
  let ?step = "len - overlap"
  let ?r = "(n - len) mod ?step"
  have step: "0 < ?step" using assms(1) by simp
  have r: "0 \<le> ?r" "?r < ?step" using step by simp_all
  show ?thesis
  proof (cases "?r = 0")
    case True
    then have "p = 0" using assms by (simp add: slice_pad_length_def Let_def)
    then show ?thesis using True step by simp
  next
    case False
    then have p: "p = ?step - ?r" using assms by (simp add: slice_pad_length_def Let_def)
    have "n + p - len = (n - len) - ?r + ?step" using p by simp
    also have "\<dots> = ?step * ((n - len) div ?step) + ?step"
      by (simp add: minus_mod_eq_mult_div)
    also have "\<dots> = ?step * ((n - len) div ?step + 1)" by (simp add: algebra_simps)
    finally have "(n + p - len) mod ?step = 0" by simp
    then show ?thesis using p r False by simp
  qed
qed

lemma pad_length_returns:
  assumes "overlap < len"
  shows "\<exists>p. slice_pad_length n len overlap = Inr p"
  using assms by (simp add: slice_pad_length_def Let_def)

lemma slice_sequence_pad_short:
  assumes "overlap < len" "int (length xs) \<le> overlap"
  shows "slice_sequence xs len True pad_val overlap = Inr []"
proof -
  let ?step = "len - overlap"
  let ?n = "int (length xs)"
  have step: "0 < ?step" using assms(1) by simp
  obtain p where p: "slice_pad_length ?n len overlap = Inr p"
    using pad_length_returns[OF assms(1)] by blast
  from pad_length_aligned[OF assms(1) p]
  have p0: "0 \<le> p" and p1: "p < ?step" and al: "(?n + p - len) mod ?step = 0" by simp_all
  have "?n + p - len < 0" using assms(2) p1 by simp
  then have "(?n + p - len) div ?step < 0" using step by (simp add: div_neg_pos_less0)
  then have "py_range ((?n + p - len) div ?step + 1) = []" by (simp add: py_range_def)
  moreover have "int (length (xs @ py_repeat pad_val p)) = ?n + p"
    using p0 by (simp add: py_repeat_def)
  ultimately have "slice_windows (xs @ py_repeat pad_val p) len overlap = []"
    by (simp add: slice_windows_def Let_def)
  then show ?thesis using assms(1) p by (simp add: slice_sequence_def pad_sequence_def)
qed

lemma window_member:
  assumes "lo \<le> j" "j < lo + k" "j < length ys"
  shows "ys ! j \<in> set (take k (drop lo ys))"
proof -
  have "j - lo < length (take k (drop lo ys))" using assms by (simp add: less_diff_conv2)
  moreover have "take k (drop lo ys) ! (j - lo) = ys ! j" using assms by simp
  ultimately show ?thesis by (metis nth_mem)
qed

lemma slice_sequence_pad_covers:
  assumes "overlap < len" "0 \<le> overlap" "overlap < int (length xs)"
  shows "\<exists>ws. slice_sequence xs len True pad_val overlap = Inr ws \<and> ws \<noteq> [] \<and>
              set xs \<subseteq> \<Union> (set ` set ws)"
proof -
  let ?step = "len - overlap"
  let ?n = "int (length xs)"
  have step: "0 < ?step" and len: "0 \<le> len" using assms by simp_all
  obtain p where p: "slice_pad_length ?n len overlap = Inr p"
    using pad_length_returns[OF assms(1)] by blast
  from pad_length_aligned[OF assms(1) p]
  have p0: "0 \<le> p" and al: "(?n + p - len) mod ?step = 0" by simp_all
  define padded where "padded = xs @ py_repeat pad_val p"
  have lp: "int (length padded) = ?n + p" using p0 by (simp add: padded_def py_repeat_def)
  from al obtain k where k: "?n + p - len = ?step * k" by (auto simp: mod_eq_0_iff_dvd dvd_def)
  have "- ?step < ?step * k" using assms(3) p0 k by linarith
  then have "?step * (- 1) < ?step * k" by simp
  then have "- 1 < k" using step by (simp only: mult_less_cancel_left_pos)
  then have k0: "0 \<le> k" by simp
  have num: "(int (length padded) - len) div ?step + 1 = k + 1"
    using k lp step by simp
  define s where "s = nat ?step"
  define L where "L = nat len"
  have sL: "s \<le> L" using assms(2) by (simp add: s_def L_def)
  have s0: "0 < s" using step by (simp add: s_def)
  have "int (nat k * s + L) = ?step * k + len"
    using k0 step len by (simp add: s_def L_def)
  then have "int (nat k * s + L) = int (length padded)" using k lp by simp
  then have last: "nat k * s + L = length padded" by (simp only: of_nat_eq_iff)
  have ws: "slice_windows padded len overlap =
              map (\<lambda>i. take L (drop (i * s) padded)) [0..<Suc (nat k)]"
    using slice_windows_take_drop[OF assms(1) len, of padded] num k0
    by (simp add: s_def L_def nat_add_distrib)
  have "x \<in> \<Union> (set ` set (slice_windows padded len overlap))" if x: "x \<in> set xs" for x
  proof -
    from x obtain j where j: "j < length xs" "xs ! j = x" by (auto simp: in_set_conv_nth)
    have jp: "j < length padded" using j(1) by (simp add: padded_def)
    have xj: "padded ! j = x" using j by (simp add: padded_def nth_append)
    define i where "i = min (j div s) (nat k)"
    have i1: "i < Suc (nat k)" by (simp add: i_def)
    have "i * s \<le> (j div s) * s" by (simp add: i_def)
    also have "\<dots> \<le> j" by simp
    finally have lo: "i * s \<le> j" .
    have hi: "j < i * s + L"
    proof (cases "j div s \<le> nat k")
      case True
      then have "i = j div s" by (simp add: i_def)
      moreover have "j < (j div s) * s + s" using s0 by (metis add.commute dividend_less_div_times mult.commute)
      ultimately show ?thesis using sL by simp
    next
      case False
      then have "i = nat k" by (simp add: i_def)
      then show ?thesis using last jp by simp
    qed
    have "x \<in> set (take L (drop (i * s) padded))"
      using window_member[OF lo hi jp] xj by simp
    moreover have "i \<in> set [0..<Suc (nat k)]" using i1 by (simp del: upt_Suc)
    ultimately have "\<exists>w \<in> set (map (\<lambda>i. take L (drop (i * s) padded)) [0..<Suc (nat k)]). x \<in> set w"
      by (metis (no_types, lifting) image_eqI set_map)
    then show ?thesis unfolding ws by blast
  qed
  then have "set xs \<subseteq> \<Union> (set ` set (slice_windows padded len overlap))" by blast
  moreover have "slice_windows padded len overlap \<noteq> []" unfolding ws by simp
  moreover have "slice_sequence xs len True pad_val overlap = Inr (slice_windows padded len overlap)"
    using assms(1) p by (simp add: slice_sequence_def pad_sequence_def padded_def)
  ultimately show ?thesis by blast
qed

text \<open>
  Claim C3 says that with \<open>pad_last=True\<close> a non-empty sequence is padded to at least
  \<open>length\<close> elements, so that a window is produced and no element is dropped. For the
  one-element sequence, \<open>length=5\<close> and \<open>overlap=3\<close> the padding length is 0 and no window
  is returned.
\<close>

theorem slice_sequence_pad_drops_data:
  "slice_pad_length (int (length [1 :: int])) 5 3 = Inr 0 \<and>
   slice_sequence [1 :: int] 5 True 0 3 = Inr []"
  by (simp add: slice_sequence_def pad_sequence_def slice_pad_length_def py_repeat_def
      slice_windows_def py_range_def py_slice_def py_clip_def upto.simps)

section \<open>Properties of concat_sequence\<close>

lemma keep_truthy: "concat (map (\<lambda>token. if truthy token then [token] else []) seq) = filter truthy seq"
  by (induction seq) simp_all

lemma concat_sequence_filter: "concat_sequence sequences = filter truthy (concat sequences)"
  by (induction sequences) (simp_all add: concat_sequence_def keep_truthy)

text \<open>
  Claim C8. concat_sequence is not a plain flatten: its result is the concatenation, in
  order, of the inner sequences with every falsy token removed. A token is in the result
  if and only if it is in some inner sequence and is truthy; the tokens \<open>0\<close>, the empty
  string and \<open>None\<close> are dropped.
\<close>

theorem concat_sequence_drops_falsy:
  "concat_sequence sequences = filter truthy (concat sequences) \<and>
   (token \<in> set (concat_sequence sequences) \<longleftrightarrow>
      (\<exists>seq \<in> set sequences. token \<in> set seq) \<and> truthy token) \<and>
   concat_sequence [[PyInt 0, PyStr [], PyNone]] = []"
proof -
  have "concat_sequence [[PyInt 0, PyStr [], PyNone]] = []"
    by (simp add: concat_sequence_def)
  then show ?thesis by (auto simp: concat_sequence_filter)
qed


theorem concat_sequence_drops_falsy_witness:
  "concat_sequence [[PyStr ''a'', PyInt 0], [], [PyNone, PyStr [], PyInt 7, PyTuple []]] =
     [PyStr ''a'', PyInt 7] \<and>
   PyInt 0 \<notin> set (concat_sequence [[PyStr ''a'', PyInt 0], [], [PyNone, PyStr [], PyInt 7, PyTuple []]]) \<and>
   concat [[PyStr ''a'', PyInt 0], [], [PyNone, PyStr [], PyInt 7, PyTuple []]] \<noteq>
     concat_sequence [[PyStr ''a'', PyInt 0], [], [PyNone, PyStr [], PyInt 7, PyTuple []]]"
  using concat_sequence_drops_falsy[of "[[PyStr ''a'', PyInt 0], [], [PyNone, PyStr [], PyInt 7, PyTuple []]]" "PyInt 0"]
  by simp

section \<open>Properties of Counter.discard\<close>

lemma total_count_setitem:
  "total_count (dict_setitem d k v) = total_count d - dict_get d k 0 + v"
  by (induction d) (auto simp: total_count_def dict_setitem_def dict_get_def)

lemma keys_setitem: "fst ` set (dict_setitem d k v) = insert k (fst ` set d)"
  by (simp add: dict_setitem_def dom_update)

lemma is_dict_setitem: "is_dict d \<Longrightarrow> is_dict (dict_setitem d k v)"
  by (simp add: is_dict_def dict_setitem_def distinct_update)

lemma dict_get_absent:
  assumes "k \<notin> fst ` set d"
  shows "dict_get d k v = v"
proof -
  have "map_of d k = None" using assms by (simp add: map_of_eq_None_iff)
  then show ?thesis by (simp add: dict_get_def)
qed

lemma discard_loop_inv:
  assumes "discard_loop items min_freq freq ret = (freq', ret')"
    and "distinct (map fst items)" and "fst ` set items \<inter> fst ` set ret = {}"
    and "is_dict ret"
  shows "freq' + total_count ret' = freq + total_count ret + total_count items \<and> is_dict ret'"
  using assms
proof (induction items arbitrary: freq ret)
  case Nil
  then show ?case by (simp add: total_count_def)
next
  case (Cons item items)
  obtain token count where item: "item = (token, count)" by (cases item)
  show ?case
  proof (cases "count < min_freq")
    case True
    then have "discard_loop items min_freq (freq + count) ret = (freq', ret')"
      using Cons.prems(1) item by simp
    moreover have "distinct (map fst items)" "fst ` set items \<inter> fst ` set ret = {}"
      using Cons.prems(2,3) by auto
    ultimately have "freq' + total_count ret' = (freq + count) + total_count ret + total_count items \<and> is_dict ret'"
      using Cons.prems(4) by (rule Cons.IH)
    then show ?thesis using item by (simp add: total_count_def)
  next
    case False
    let ?ret = "dict_setitem ret token count"
    have run: "discard_loop items min_freq freq ?ret = (freq', ret')"
      using Cons.prems(1) item False by simp
    have absent: "token \<notin> fst ` set ret" using Cons.prems(3) item by auto
    have "token \<notin> fst ` set items" using Cons.prems(2) item by auto
    then have disj: "fst ` set items \<inter> fst ` set ?ret = {}"
      using Cons.prems(3) by (auto simp: keys_setitem)
    have keys: "distinct (map fst items)" using Cons.prems(2) by simp
    have wf: "is_dict ?ret" using Cons.prems(4) by (rule is_dict_setitem)
    have "freq' + total_count ret' = freq + total_count ?ret + total_count items \<and> is_dict ret'"
      by (rule Cons.IH[OF run keys disj wf])
    moreover have "total_count ?ret = total_count ret + count"
      using absent by (simp add: total_count_setitem dict_get_absent)
    ultimately show ?thesis using item by (simp add: total_count_def)
  qed
qed

text \<open>
  Claim C9. For every counter, \<open>min_freq\<close> and \<open>unknown_token\<close>, the counts of
  \<open>c.discard(min_freq, unknown_token)\<close> sum to the same total as the counts of \<open>c\<close>, and
  the returned counter has the key \<open>unknown_token\<close>. The returned counter is a dict again.
\<close>

theorem discard_preserves_total:
  assumes "is_dict c"
  shows "total_count (discard c min_freq unknown_token) = total_count c \<and>
         unknown_token \<in> fst ` set (discard c min_freq unknown_token) \<and>
         is_dict (discard c min_freq unknown_token)"
proof -
  obtain freq ret where run: "discard_loop c min_freq 0 [] = (freq, ret)"
    by (cases "discard_loop c min_freq 0 []")
  have inv: "freq + total_count ret = total_count c \<and> is_dict ret"
    using discard_loop_inv[OF run] assms by (simp add: is_dict_def total_count_def)
  have d: "discard c min_freq unknown_token =
             dict_setitem ret unknown_token (dict_get ret unknown_token 0 + freq)"
    using run by (simp add: discard_def)
  show ?thesis
    using inv unfolding d by (simp add: total_count_setitem keys_setitem is_dict_setitem)
qed


theorem discard_preserves_total_witness:
  "is_dict [(''a'', 10 :: int), (''b'', 1), (''c'', 1)] \<and>
   discard [(''a'', 10), (''b'', 1), (''c'', 1)] 3 ''<unk>'' = [(''a'', 10), (''<unk>'', 2)] \<and>
   total_count (discard [(''a'', 10), (''b'', 1), (''c'', 1)] 3 ''<unk>'') = 12 \<and>
   total_count [(''a'', 10), (''b'', 1), (''c'', 1)] = 12"
proof -
  have w: "is_dict [(''a'', 10 :: int), (''b'', 1), (''c'', 1)]"
    by (simp add: is_dict_def)
  have e: "discard [(''a'', 10), (''b'', 1), (''c'', 1)] 3 ''<unk>'' = [(''a'', 10), (''<unk>'', 2)]"
    by (simp add: discard_def dict_setitem_def dict_get_def)
  have t: "total_count [(''a'', 10), (''b'', 1), (''c'', 1)] = 12"
    by (simp add: total_count_def)
  show ?thesis
    using discard_preserves_total[OF w, of 3 "''<unk>''"] w e t by simp
qed

section \<open>Properties of DefaultLookupDict\<close>

text \<open>
  Claim C10. Looking a key up in a DefaultLookupDict never fails: it returns the stored
  value when the key is present and the default given to the constructor otherwise, and
  never raises KeyError.
\<close>

theorem DefaultLookupDict_getitem_total:
  "DefaultLookupDict_getitem (DefaultLookupDict_init dflt d) k =
     Inr (case d of None \<Rightarrow> dflt
          | Some m \<Rightarrow> (case map_of m k of None \<Rightarrow> dflt | Some v \<Rightarrow> v)) \<and>
   DefaultLookupDict_getitem self k =
     Inr (case map_of (entries self) k of None \<Rightarrow> default_value self | Some v \<Rightarrow> v) \<and>
   DefaultLookupDict_getitem self k \<noteq> Inl KeyError"
  by (simp add: DefaultLookupDict_getitem_def DefaultLookupDict_init_def dict_get_def
      split: option.splits)

theorem DefaultLookupDict_getitem_total_witness:
  "DefaultLookupDict_getitem (DefaultLookupDict_init (0::int) (Some [(''a'', 1), (''b'', 2)])) ''b'' = Inr 2 \<and>
   DefaultLookupDict_getitem (DefaultLookupDict_init (0::int) (Some [(''a'', 1), (''b'', 2)])) ''c'' = Inr 0 \<and>
   DefaultLookupDict_getitem (DefaultLookupDict_init (0::int) None) ''c'' = Inr 0"
  using DefaultLookupDict_getitem_total[of "0::int" "Some [(''a'', 1), (''b'', 2)]" "''b''"
      "DefaultLookupDict_init (0::int) None"]
    DefaultLookupDict_getitem_total[of "0::int" "Some [(''a'', 1), (''b'', 2)]" "''c''"
      "DefaultLookupDict_init (0::int) None"]
    DefaultLookupDict_getitem_total[of "0::int" "None :: (string, int) dict option" "''c''"
      "DefaultLookupDict_init (0::int) None"]
  by simp

end
